theory Spec2Isabelle
  imports Complex_Main "HOL-Library.Multiset"
begin

section \<open>The notebook DataAccessExample_V1 as HOL functions\<close>

text \<open>
  The notebook reads a list of header locations from a text file, processes every
  location with \<open>process_file\<close> inside a joblib thread pool, sorts the gathered
  pairs by their first time value and splits them into the lists \<open>Streamflow\<close>
  and \<open>Timestamp\<close>.

  Exceptions are values: a computation that may raise returns \<open>py_error + 'a\<close>,
  with \<open>Inl\<close> for the exception. \<open>KeyError\<close> is what xarray's label selection
  raises for a label that is not in the index, \<open>InvalidIndexError\<close> what pandas
  raises when a list of labels is looked up in an index with repeated labels,
  \<open>IndexError\<close> what a read at a position out of range raises; \<open>OSError\<close> and
  \<open>ValueError\<close> stand for the failures of the input and decoding libraries.
\<close>

datatype py_error = OSError | ValueError | KeyError | InvalidIndexError | IndexError

text \<open>
  Running a fallible function over a list, left to right; the first exception leaves
  the loop and no list is built.
\<close>

fun traverse :: "('a \<Rightarrow> py_error + 'b) \<Rightarrow> 'a list \<Rightarrow> py_error + 'b list" where
  "traverse f [] = Inr []"
| "traverse f (x # xs) =
     (case f x of
        Inl e \<Rightarrow> Inl e
      | Inr y \<Rightarrow> (case traverse f xs of Inl e \<Rightarrow> Inl e | Inr ys \<Rightarrow> Inr (y # ys)))"

subsection \<open>Time values\<close>

text \<open>
  A time value is a numpy \<open>datetime64\<close>: a count of time units, or \<open>NaT\<close>, not a
  time. A comparison with \<open>NaT\<close> on either side is false, also \<open>NaT <= NaT\<close>.
\<close>

datatype datetime64 = NaT | DT int

fun dt_lt :: "datetime64 \<Rightarrow> datetime64 \<Rightarrow> bool" where
  "dt_lt (DT a) (DT b) = (a < b)"
| "dt_lt _ _ = False"

fun dt_le :: "datetime64 \<Rightarrow> datetime64 \<Rightarrow> bool" where
  "dt_le (DT a) (DT b) = (a \<le> b)"
| "dt_le _ _ = False"

text \<open>The count of a time value, for stating properties of values that are times.\<close>

fun the_time :: "datetime64 \<Rightarrow> int" where
  "the_time (DT a) = a"
| "the_time NaT = 0"

subsection \<open>The dataset view and the selection of values\<close>

text \<open>
  The dataset opened from one header, as far as the notebook reads it: the labels of
  the \<open>feature_id\<close> dimension, the \<open>streamflow\<close> variable along that dimension and
  the \<open>time\<close> coordinate. Streamflow values are only ever copied, so their type is
  left open.
\<close>

record 'v dataset =
  feature_id :: "int list"
  streamflow :: "'v list"
  time :: "datetime64 list"

text \<open>The position of a label in an index, if it is there.\<close>

fun get_loc :: "int list \<Rightarrow> int \<Rightarrow> nat option" where
  "get_loc [] i = None"
| "get_loc (c # cs) i = (if c = i then Some 0 else map_option Suc (get_loc cs i))"

text \<open>
  \<open>ds.streamflow.sel(feature_id=labels)\<close> for a list of labels. The labels are
  handed to the \<open>get_indexer\<close> of the pandas index, which refuses an index with
  repeated labels (\<open>InvalidIndexError\<close>) before it looks at the labels; then every
  label is looked up, and a label that is not found raises \<open>KeyError\<close> before any
  value is read; then the values at the positions found are taken, in the order of the
  labels.
\<close>

definition get_indexer :: "int list \<Rightarrow> int list \<Rightarrow> py_error + nat option list" where
  "get_indexer index labels =
     (if \<not> distinct index then Inl InvalidIndexError else Inr (map (get_loc index) labels))"

definition isel :: "'v list \<Rightarrow> nat list \<Rightarrow> py_error + 'v list" where
  "isel vals ps =
     (if \<forall>p \<in> set ps. p < length vals then Inr (map (\<lambda>p. vals ! p) ps) else Inl IndexError)"

definition sel :: "'v dataset \<Rightarrow> int list \<Rightarrow> py_error + 'v list" where
  "sel ds labels =
     (case get_indexer (feature_id ds) labels of
        Inl e \<Rightarrow> Inl e
      | Inr indexer \<Rightarrow>
          if None \<in> set indexer then Inl KeyError
          else isel (streamflow ds) (map the indexer))"

text \<open>
  \<^verbatim>\<open>
  def select_flow(ds, feature_id):
      cords = ds.streamflow.sel(feature_id=feature_id)
      return cords.values

  def select_time(ds):
      dstime = ds.time
      return dstime.values
  \<close>
\<close>

definition select_flow :: "'v dataset \<Rightarrow> int list \<Rightarrow> py_error + 'v list" where
  "select_flow ds feature_ids = sel ds feature_ids"

definition select_time :: "'v dataset \<Rightarrow> datetime64 list" where
  "select_time ds = time ds"

text \<open>
  A dataset is well formed when the variable has one value for every label of its
  dimension and no label is repeated.
\<close>

definition valid_ds :: "'v dataset \<Rightarrow> bool" where
  "valid_ds ds \<longleftrightarrow> length (streamflow ds) = length (feature_id ds) \<and> distinct (feature_id ds)"

subsection \<open>Processing one file\<close>

text \<open>
  \<^verbatim>\<open>
  def process_file(file_url, feature_id):
      json_obj = load_remote_json(file_url)
      ds = load_remote_ds(json_obj)
      streamflow_value = select_flow(ds, feature_id)
      time_value = select_time(ds)
      return streamflow_value, time_value
  \<close>
  \<open>load_remote_json\<close> (fsspec and ujson) and \<open>load_remote_ds\<close> (xarray over a
  reference file system) only call libraries; they are parameters here, each either
  raising or returning its value. The type of a location is left open: the functions
  only pass it on.
\<close>

definition process_file ::
  "('u \<Rightarrow> py_error + 'h) \<Rightarrow> ('h \<Rightarrow> py_error + 'v dataset) \<Rightarrow>
   'u \<Rightarrow> int list \<Rightarrow> py_error + ('v list \<times> datetime64 list)" where
  "process_file load_remote_json load_remote_ds file_url feature_ids =
     (case load_remote_json file_url of
        Inl e \<Rightarrow> Inl e
      | Inr json_obj \<Rightarrow>
          (case load_remote_ds json_obj of
             Inl e \<Rightarrow> Inl e
           | Inr ds \<Rightarrow>
               (case select_flow ds feature_ids of
                  Inl e \<Rightarrow> Inl e
                | Inr streamflow_value \<Rightarrow> Inr (streamflow_value, select_time ds))))"

subsection \<open>Reading the list of locations\<close>

text \<open>
  \<^verbatim>\<open>
  files = []
  with open(filename, "r") as file:
      for line in file:
          url = line.strip()
          files.append(url)
  \<close>
  A Python string is a list of code points. The file is opened in text mode with
  universal newlines: in the decoded text every carriage return followed by a line
  feed, and every other carriage return, is replaced by a line feed; iterating over
  the file then yields the lines, each with its line feed, the last line possibly
  without one. \<open>strip\<close> removes the white space of Unicode at both ends.
\<close>

type_synonym str = "nat list"

definition is_space :: "nat \<Rightarrow> bool" where
  "is_space c \<longleftrightarrow>
     (0x09 \<le> c \<and> c \<le> 0x0D) \<or> (0x1C \<le> c \<and> c \<le> 0x20) \<or> c = 0x85 \<or> c = 0xA0 \<or>
     c = 0x1680 \<or> (0x2000 \<le> c \<and> c \<le> 0x200A) \<or> c = 0x2028 \<or> c = 0x2029 \<or>
     c = 0x202F \<or> c = 0x205F \<or> c = 0x3000"

definition strip :: "str \<Rightarrow> str" where
  "strip s = rev (dropWhile is_space (rev (dropWhile is_space s)))"

fun universal_newlines :: "str \<Rightarrow> str" where
  "universal_newlines [] = []"
| "universal_newlines [c] = [if c = 0x0D then 0x0A else c]"
| "universal_newlines (c # d # cs) =
     (if c = 0x0D \<and> d = 0x0A then 0x0A # universal_newlines cs
      else if c = 0x0D then 0x0A # universal_newlines (d # cs)
      else c # universal_newlines (d # cs))"

fun file_lines :: "str \<Rightarrow> str \<Rightarrow> str list" where
  "file_lines cur [] = (if cur = [] then [] else [cur])"
| "file_lines cur (c # cs) =
     (if c = 0x0A then (cur @ [c]) # file_lines [] cs else file_lines (cur @ [c]) cs)"

definition read_files :: "str \<Rightarrow> str list" where
  "read_files content =
     foldl (\<lambda>files line. files @ [strip line]) [] (file_lines [] (universal_newlines content))"

subsection \<open>Dispatching and gathering\<close>

text \<open>
  \<^verbatim>\<open>
  num_cores = psutil.cpu_count(logical=False)
  ...
  with joblib.parallel_backend("threading", n_jobs=num_cores):
      result_values = joblib.Parallel()(joblib.delayed(process_file)(file_url, feature_ids)
                                        for file_url in files)
  result_values = sorted(result_values, key=lambda x: x[1][0])
  Streamflow = [item[0] for item in result_values]
  Timestamp = [item[1] for item in result_values]
  \<close>
  The number of workers handed to joblib is the number of cores, whatever the list of
  files is. \<open>Parallel\<close> returns the results of the calls as a list, and an exception
  raised by a call is raised again in the caller, so that no list is returned.
\<close>

definition n_jobs :: "int \<Rightarrow> 'u list \<Rightarrow> int" where
  "n_jobs num_cores files = num_cores"

definition Parallel ::
  "('u \<Rightarrow> py_error + 'h) \<Rightarrow> ('h \<Rightarrow> py_error + 'v dataset) \<Rightarrow>
   'u list \<Rightarrow> int list \<Rightarrow> py_error + ('v list \<times> datetime64 list) list" where
  "Parallel load_remote_json load_remote_ds files feature_ids =
     traverse (\<lambda>file_url. process_file load_remote_json load_remote_ds file_url feature_ids) files"

subsection \<open>Sorting\<close>

text \<open>
  \<open>sorted(xs, key=k)\<close> computes the key of every element first (an exception of the
  key function leaves \<open>sorted\<close>) and then sorts the pairs of key and element,
  comparing keys with \<open><\<close> only. The functions below follow the list sort of
  CPython 3.10 (the version of the notebook) for a list of fewer than 64 elements:
  \<open>count_run\<close> finds the run at the start of the list, ascending, or strictly
  descending and then reversed, and \<open>binarysort\<close> inserts every further element
  into it at the position found by binary search. Longer lists are sorted run by run
  in the same way and the runs merged, which gives the same list whenever the
  comparison is a total order on the keys.
\<close>

fun run_ascending :: "('k \<Rightarrow> 'k \<Rightarrow> bool) \<Rightarrow> 'k \<Rightarrow> ('k \<times> 'a) list \<Rightarrow> nat" where
  "run_ascending lt prev [] = 0"
| "run_ascending lt prev (x # xs) =
     (if lt (fst x) prev then 0 else Suc (run_ascending lt (fst x) xs))"

fun run_descending :: "('k \<Rightarrow> 'k \<Rightarrow> bool) \<Rightarrow> 'k \<Rightarrow> ('k \<times> 'a) list \<Rightarrow> nat" where
  "run_descending lt prev [] = 0"
| "run_descending lt prev (x # xs) =
     (if lt (fst x) prev then Suc (run_descending lt (fst x) xs) else 0)"

fun count_run :: "('k \<Rightarrow> 'k \<Rightarrow> bool) \<Rightarrow> ('k \<times> 'a) list \<Rightarrow> nat \<times> bool" where
  "count_run lt [] = (0, False)"
| "count_run lt [x] = (1, False)"
| "count_run lt (x # y # ys) =
     (if lt (fst y) (fst x) then (2 + run_descending lt (fst y) ys, True)
      else (2 + run_ascending lt (fst y) ys, False))"

function bisect :: "('k \<Rightarrow> 'k \<Rightarrow> bool) \<Rightarrow> 'k \<Rightarrow> ('k \<times> 'a) list \<Rightarrow> nat \<Rightarrow> nat \<Rightarrow> nat" where
  "bisect lt pivot run l r =
     (if l < r then
        (if lt pivot (fst (run ! (l + (r - l) div 2)))
         then bisect lt pivot run l (l + (r - l) div 2)
         else bisect lt pivot run (l + (r - l) div 2 + 1) r)
      else l)"
  by pat_completeness auto
termination
  by (relation "measure (\<lambda>(lt, pivot, run, l, r). r - l)") auto

definition binary_insert ::
  "('k \<Rightarrow> 'k \<Rightarrow> bool) \<Rightarrow> ('k \<times> 'a) list \<Rightarrow> 'k \<times> 'a \<Rightarrow> ('k \<times> 'a) list" where
  "binary_insert lt run x =
     (let l = bisect lt (fst x) run 0 (length run) in take l run @ x # drop l run)"

definition binarysort ::
  "('k \<Rightarrow> 'k \<Rightarrow> bool) \<Rightarrow> ('k \<times> 'a) list \<Rightarrow> ('k \<times> 'a) list \<Rightarrow> ('k \<times> 'a) list" where
  "binarysort lt run rest = foldl (binary_insert lt) run rest"

definition list_sort :: "('k \<Rightarrow> 'k \<Rightarrow> bool) \<Rightarrow> ('k \<times> 'a) list \<Rightarrow> ('k \<times> 'a) list" where
  "list_sort lt ps =
     (if length ps < 2 then ps
      else (case count_run lt ps of
              (n, descending) \<Rightarrow>
                binarysort lt (if descending then rev (take n ps) else take n ps) (drop n ps)))"

text \<open>
  The key of the notebook is the first time value of a result, \<open>x[1][0]\<close>, which
  raises \<open>IndexError\<close> on an empty time array.
\<close>

definition first_time :: "'v list \<times> datetime64 list \<Rightarrow> py_error + datetime64" where
  "first_time x = (case snd x of [] \<Rightarrow> Inl IndexError | t # _ \<Rightarrow> Inr t)"

definition sorted_by :: "('a \<Rightarrow> py_error + datetime64) \<Rightarrow> 'a list \<Rightarrow> py_error + 'a list" where
  "sorted_by key xs =
     (case traverse key xs of
        Inl e \<Rightarrow> Inl e
      | Inr ks \<Rightarrow> Inr (map snd (list_sort dt_lt (zip ks xs))))"

record 'v assembled =
  result_values :: "('v list \<times> datetime64 list) list"
  Streamflow :: "'v list list"
  Timestamp :: "datetime64 list list"

definition assemble :: "('v list \<times> datetime64 list) list \<Rightarrow> py_error + 'v assembled" where
  "assemble gathered =
     (case sorted_by first_time gathered of
        Inl e \<Rightarrow> Inl e
      | Inr rs \<Rightarrow>
          Inr \<lparr>result_values = rs, Streamflow = map fst rs, Timestamp = map snd rs\<rparr>)"

definition pipeline ::
  "('u \<Rightarrow> py_error + 'h) \<Rightarrow> ('h \<Rightarrow> py_error + 'v dataset) \<Rightarrow>
   'u list \<Rightarrow> int list \<Rightarrow> py_error + 'v assembled" where
  "pipeline load_remote_json load_remote_ds files feature_ids =
     (case Parallel load_remote_json load_remote_ds files feature_ids of
        Inl e \<Rightarrow> Inl e
      | Inr gathered \<Rightarrow> assemble gathered)"

section \<open>Properties\<close>

subsection \<open>The list sort\<close>

text \<open>
  The sort always returns a permutation of its input. When no key is \<open>NaT\<close> the
  comparison is a total order, and the sort returns the stable sort of the list by
  the counts of the keys.
\<close>

declare bisect.simps [simp del]

lemma filter_same_key:
  "distinct (map f zs) \<Longrightarrow> k \<in> set zs \<Longrightarrow> filter (\<lambda>x. f k = f x) zs = [k]"
proof (induction zs)
  case Nil
  then show ?case by simp
next
  case (Cons z zs)
  show ?case
  proof (cases "k = z")
    case True
    have "\<forall>x \<in> set zs. f z \<noteq> f x" using Cons.prems(1) by auto
    then have "filter (\<lambda>x. f z = f x) zs = []" by (simp add: filter_empty_conv)
    with True show ?thesis by simp
  next
    case False
    with Cons.prems have kz: "k \<in> set zs" by simp
    then have "f k \<in> f ` set zs" by (rule imageI)
    with Cons.prems(1) have "f k \<noteq> f z" by auto
    with kz Cons show ?thesis by simp
  qed
qed

lemma sort_key_perm:
  assumes "distinct (map f xs)" and "mset ys = mset xs"
  shows "sort_key f ys = sort_key f xs"
proof (rule properties_for_sort_key)
  show "mset (sort_key f xs) = mset ys" using assms(2) by simp
  show "sorted (map f (sort_key f xs))" by simp
  fix k assume k: "k \<in> set (sort_key f xs)"
  have "mset (map f ys) = mset (map f xs)" using assms(2) by simp
  then have dy: "distinct (map f ys)" using assms(1) by (metis mset_eq_imp_distinct_iff)
  have ds: "distinct (map f (sort_key f xs))" using assms(1) by (simp add: distinct_map)
  have ky: "k \<in> set ys" using k assms(2) by (metis set_sort mset_eq_setD)
  show "filter (\<lambda>x. f k = f x) (sort_key f xs) = filter (\<lambda>x. f k = f x) ys"
    by (simp add: filter_same_key [OF ds k] filter_same_key [OF dy ky])
qed

lemma mset_binary_insert: "mset (binary_insert lt run x) = add_mset x (mset run)"
proof -
  have "mset (take l run) + mset (drop l run) = mset run" for l
    by (metis append_take_drop_id mset_append)
  then show ?thesis by (simp add: binary_insert_def Let_def)
qed

lemma mset_binarysort: "mset (binarysort lt run rest) = mset run + mset rest"
  unfolding binarysort_def
  by (induction rest arbitrary: run) (simp_all add: mset_binary_insert)

lemma mset_list_sort: "mset (list_sort lt ps) = mset ps"
proof (cases "length ps < 2")
  case True
  then show ?thesis by (simp add: list_sort_def)
next
  case False
  obtain n d where c: "count_run lt ps = (n, d)" by (cases "count_run lt ps")
  have "mset (take n ps) + mset (drop n ps) = mset ps"
    by (metis append_take_drop_id mset_append)
  then show ?thesis using False c by (simp add: list_sort_def mset_binarysort)
qed

lemma dt_lt_time:
  "a \<noteq> NaT \<Longrightarrow> b \<noteq> NaT \<Longrightarrow> dt_lt a b \<longleftrightarrow> the_time a < the_time b"
  by (cases a; cases b) simp_all

lemma dt_le_time:
  "a \<noteq> NaT \<Longrightarrow> b \<noteq> NaT \<Longrightarrow> dt_le a b \<longleftrightarrow> the_time a \<le> the_time b"
  by (cases a; cases b) simp_all

lemma bisect_bounds:
  assumes srt: "sorted (map (\<lambda>p. the_time (fst p)) run)"
    and nn: "\<forall>p \<in> set run. fst p \<noteq> NaT" and pn: "pivot \<noteq> NaT"
  shows "l \<le> r \<Longrightarrow> r \<le> length run \<Longrightarrow>
     (\<forall>i < l. the_time (fst (run ! i)) \<le> the_time pivot) \<Longrightarrow>
     (\<forall>i. r \<le> i \<and> i < length run \<longrightarrow> the_time pivot < the_time (fst (run ! i))) \<Longrightarrow>
     bisect dt_lt pivot run l r \<le> length run \<and>
     (\<forall>i < bisect dt_lt pivot run l r. the_time (fst (run ! i)) \<le> the_time pivot) \<and>
     (\<forall>i. bisect dt_lt pivot run l r \<le> i \<and> i < length run \<longrightarrow>
          the_time pivot < the_time (fst (run ! i)))"
proof (induction "r - l" arbitrary: l r rule: less_induct)
  case less
  show ?case
  proof (cases "l < r")
    case False
    with less.prems have "l = r" by simp
    with less.prems show ?thesis by (simp add: bisect.simps [of _ _ _ r r])
  next
    case True
    let ?m = "l + (r - l) div 2"
    have m: "l \<le> ?m" "?m < r" using True by auto
    then have ml: "?m < length run" using less.prems(2) by simp
    then have mn: "fst (run ! ?m) \<noteq> NaT" using nn by simp
    have mono: "the_time (fst (run ! i)) \<le> the_time (fst (run ! j))"
      if "i \<le> j" "j < length run" for i j
      using sorted_nth_mono [OF srt, of i j] that by simp
    show ?thesis
    proof (cases "dt_lt pivot (fst (run ! ?m))")
      case lt: True
      then have pm: "the_time pivot < the_time (fst (run ! ?m))"
        using pn mn by (simp add: dt_lt_time)
      have hi: "\<forall>i. ?m \<le> i \<and> i < length run \<longrightarrow> the_time pivot < the_time (fst (run ! i))"
        using pm mono by fastforce
      have b: "bisect dt_lt pivot run l r = bisect dt_lt pivot run l ?m"
        using True lt by (simp add: bisect.simps [of _ _ _ l r])
      have "?m - l < r - l" using m by simp
      from less.hyps [OF this m(1) _ less.prems(3) hi] ml show ?thesis
        unfolding b by simp
    next
      case ge: False
      then have pm: "the_time (fst (run ! ?m)) \<le> the_time pivot"
        using pn mn by (simp add: dt_lt_time)
      have lo: "\<forall>i < ?m + 1. the_time (fst (run ! i)) \<le> the_time pivot"
      proof (intro allI impI)
        fix i assume "i < ?m + 1"
        then have "i \<le> ?m" by simp
        from mono [OF this ml] pm show "the_time (fst (run ! i)) \<le> the_time pivot" by simp
      qed
      have b: "bisect dt_lt pivot run l r = bisect dt_lt pivot run (?m + 1) r"
        using True ge by (simp add: bisect.simps [of _ _ _ l r])
      have d: "r - (?m + 1) < r - l" using m by simp
      have "?m + 1 \<le> r" using m by simp
      from less.hyps [OF d this less.prems(2) lo less.prems(4)] show ?thesis
        unfolding b by simp
    qed
  qed
qed

lemma binary_insert_sort_key:
  assumes nn: "\<forall>p \<in> set zs. fst p \<noteq> NaT" and xn: "fst x \<noteq> NaT"
  shows "binary_insert dt_lt (sort_key (\<lambda>p. the_time (fst p)) zs) x =
         sort_key (\<lambda>p. the_time (fst p)) (zs @ [x])"
proof -
  let ?g = "\<lambda>p :: datetime64 \<times> 'a. the_time (fst p)"
  let ?run = "sort_key ?g zs"
  let ?b = "bisect dt_lt (fst x) ?run 0 (length ?run)"
  have srt: "sorted (map ?g ?run)" by simp
  have nr: "\<forall>p \<in> set ?run. fst p \<noteq> NaT" using nn by simp
  from bisect_bounds [OF srt nr xn, of 0 "length ?run"]
  have b: "?b \<le> length ?run"
    and lo: "\<forall>i < ?b. ?g (?run ! i) \<le> ?g x"
    and hi: "\<forall>i. ?b \<le> i \<and> i < length ?run \<longrightarrow> ?g x < ?g (?run ! i)"
    by simp_all
  have tk: "?g y \<le> ?g x" if "y \<in> set (take ?b ?run)" for y
  proof -
    from that obtain i where "i < length (take ?b ?run)" "take ?b ?run ! i = y"
      by (auto simp: in_set_conv_nth)
    with lo b show ?thesis by auto
  qed
  have dr: "?g x < ?g y" if "y \<in> set (drop ?b ?run)" for y
  proof -
    from that obtain i where "i < length (drop ?b ?run)" "drop ?b ?run ! i = y"
      by (auto simp: in_set_conv_nth)
    with hi b show ?thesis by auto
  qed
  have split: "take ?b ?run @ drop ?b ?run = ?run" by simp
  have "sort_key ?g (zs @ [x]) = take ?b ?run @ x # drop ?b ?run"
  proof (rule properties_for_sort_key)
    have "mset (take ?b ?run) + mset (drop ?b ?run) = mset ?run"
      by (metis split mset_append)
    then show "mset (take ?b ?run @ x # drop ?b ?run) = mset (zs @ [x])" by simp
  next
    have st: "sorted (map ?g (take ?b ?run))"
      using sorted_wrt_take [OF srt, of ?b] by (simp add: take_map)
    have sd: "sorted (map ?g (drop ?b ?run))"
      using sorted_wrt_drop [OF srt, of ?b] by (simp add: drop_map)
    have td: "?g a \<le> ?g c" if "a \<in> set (take ?b ?run)" "c \<in> set (drop ?b ?run)" for a c
      using tk [OF that(1)] dr [OF that(2)] by simp
    have xd: "?g x \<le> ?g c" if "c \<in> set (drop ?b ?run)" for c
      using dr [OF that] by simp
    show "sorted (map ?g (take ?b ?run @ x # drop ?b ?run))"
      unfolding map_append list.map sorted_append sorted_simps
      using st sd td tk xd by auto
  next
    fix k
    have eq: "(\<lambda>y. ?g k = ?g y) = (\<lambda>y. ?g y = ?g k)" by (rule ext) (rule eq_commute)
    have fr: "filter (\<lambda>y. ?g k = ?g y) (take ?b ?run) @ filter (\<lambda>y. ?g k = ?g y) (drop ?b ?run)
             = filter (\<lambda>y. ?g k = ?g y) zs"
    proof -
      have "filter (\<lambda>y. ?g k = ?g y) (take ?b ?run) @ filter (\<lambda>y. ?g k = ?g y) (drop ?b ?run)
            = filter (\<lambda>y. ?g k = ?g y) (take ?b ?run @ drop ?b ?run)"
        by (rule filter_append [symmetric])
      also have "\<dots> = filter (\<lambda>y. ?g k = ?g y) ?run" by (simp only: split)
      also have "\<dots> = filter (\<lambda>y. ?g k = ?g y) zs"
        unfolding eq by (rule sort_key_stable)
      finally show ?thesis .
    qed
    show "filter (\<lambda>y. ?g k = ?g y) (take ?b ?run @ x # drop ?b ?run)
          = filter (\<lambda>y. ?g k = ?g y) (zs @ [x])"
    proof (cases "?g k = ?g x")
      case True
      have "\<forall>y \<in> set (drop ?b ?run). ?g k \<noteq> ?g y"
      proof
        fix y assume "y \<in> set (drop ?b ?run)"
        from dr [OF this] True show "?g k \<noteq> ?g y" by linarith
      qed
      then have "filter (\<lambda>y. ?g k = ?g y) (drop ?b ?run) = []"
        unfolding filter_empty_conv by blast
      with fr True show ?thesis by simp
    next
      case False
      with fr show ?thesis by simp
    qed
  qed
  then show ?thesis by (simp add: binary_insert_def Let_def)
qed


lemma binarysort_sort_key:
  assumes "\<forall>p \<in> set zs. fst p \<noteq> NaT" and "\<forall>p \<in> set rest. fst p \<noteq> NaT"
  shows "binarysort dt_lt (sort_key (\<lambda>p. the_time (fst p)) zs) rest =
         sort_key (\<lambda>p. the_time (fst p)) (zs @ rest)"
  using assms
proof (induction rest arbitrary: zs)
  case Nil
  show ?case by (simp add: binarysort_def)
next
  case (Cons x rest)
  have "binarysort dt_lt (sort_key (\<lambda>p. the_time (fst p)) zs) (x # rest) =
        binarysort dt_lt (sort_key (\<lambda>p. the_time (fst p)) (zs @ [x])) rest"
    using Cons.prems by (simp add: binarysort_def binary_insert_sort_key)
  also have "\<dots> = sort_key (\<lambda>p. the_time (fst p)) ((zs @ [x]) @ rest)"
    using Cons.prems by (intro Cons.IH) auto
  finally show ?case by simp
qed

lemma run_ascending_sorted:
  "\<forall>p \<in> set xs. fst p \<noteq> NaT \<Longrightarrow> k \<noteq> NaT \<Longrightarrow>
   sorted (the_time k # map (\<lambda>p. the_time (fst p)) (take (run_ascending dt_lt k xs) xs))"
proof (induction xs arbitrary: k)
  case Nil
  show ?case by simp
next
  case (Cons x xs)
  then have xn: "fst x \<noteq> NaT" by simp
  show ?case
  proof (cases "dt_lt (fst x) k")
    case True
    then show ?thesis by simp
  next
    case False
    then have "the_time k \<le> the_time (fst x)" using xn Cons.prems(2) by (simp add: dt_lt_time)
    moreover have "sorted (the_time (fst x) #
        map (\<lambda>p. the_time (fst p)) (take (run_ascending dt_lt (fst x) xs) xs))"
      using Cons.prems xn by (intro Cons.IH) auto
    ultimately show ?thesis using False by fastforce
  qed
qed

lemma run_descending_sorted:
  "\<forall>p \<in> set xs. fst p \<noteq> NaT \<Longrightarrow> k \<noteq> NaT \<Longrightarrow>
   sorted_wrt (\<lambda>a b. b < a)
     (the_time k # map (\<lambda>p. the_time (fst p)) (take (run_descending dt_lt k xs) xs))"
proof (induction xs arbitrary: k)
  case Nil
  show ?case by simp
next
  case (Cons x xs)
  then have xn: "fst x \<noteq> NaT" by simp
  show ?case
  proof (cases "dt_lt (fst x) k")
    case False
    then show ?thesis by simp
  next
    case True
    then have lt: "the_time (fst x) < the_time k" using xn Cons.prems(2) by (simp add: dt_lt_time)
    have ih: "sorted_wrt (\<lambda>a b. b < a) (the_time (fst x) #
        map (\<lambda>p. the_time (fst p)) (take (run_descending dt_lt (fst x) xs) xs))"
      using Cons.prems xn by (intro Cons.IH) auto
    then have "\<forall>b \<in> set (map (\<lambda>p. the_time (fst p)) (take (run_descending dt_lt (fst x) xs) xs)).
                 b < the_time k"
      using lt by fastforce
    with ih lt show ?thesis using True by simp
  qed
qed

lemma descending_run_sort_key:
  assumes "sorted_wrt (\<lambda>a b. b < a) (map f zs)"
  shows "rev zs = sort_key f zs"
proof -
  have "sorted_wrt (<) (rev (map f zs))"
    using assms by (simp add: sorted_wrt_rev)
  then have s: "sorted (map f (rev zs))" and d: "distinct (map f (rev zs))"
    by (simp_all add: rev_map strict_sorted_iff)
  have "sort_key f zs = sort_key f (rev zs)"
    using d by (intro sort_key_perm) simp_all
  also have "\<dots> = rev zs" using s by (rule sort_key_id_if_sorted)
  finally show ?thesis by simp
qed

lemma count_run_sort_key:
  assumes "\<forall>p \<in> set ps. fst p \<noteq> NaT" and "count_run dt_lt ps = (n, d)"
  shows "(if d then rev (take n ps) else take n ps) = sort_key (\<lambda>p. the_time (fst p)) (take n ps)"
proof -
  consider "ps = []" | x where "ps = [x]" | x y ys where "ps = x # y # ys"
    by (cases ps rule: remdups_adj.cases) auto
  then show ?thesis
  proof cases
  case 1
  then show ?thesis by simp
next
  case (2 x)
  then show ?thesis using assms(2) by auto
next
  case (3 x y ys)
  then have ps: "ps = x # y # ys" by simp
  have xn: "fst x \<noteq> NaT" and yn: "fst y \<noteq> NaT" and ysn: "\<forall>p \<in> set ys. fst p \<noteq> NaT"
    using assms(1) ps by auto
  show ?thesis
  proof (cases "dt_lt (fst y) (fst x)")
    case True
    then have n: "n = 2 + run_descending dt_lt (fst y) ys" and d: "d"
      using assms(2) ps by auto
    have lt: "the_time (fst y) < the_time (fst x)" using True xn yn by (simp add: dt_lt_time)
    have r: "sorted_wrt (\<lambda>a b. b < a) (the_time (fst y) #
        map (\<lambda>p. the_time (fst p)) (take (run_descending dt_lt (fst y) ys) ys))"
      using ysn yn by (rule run_descending_sorted)
    then have "sorted_wrt (\<lambda>a b. b < a) (map (\<lambda>p. the_time (fst p)) (take n ps))"
      using lt unfolding n ps by fastforce
    then show ?thesis using d by (simp add: descending_run_sort_key)
  next
    case False
    then have n: "n = 2 + run_ascending dt_lt (fst y) ys" and d: "\<not> d"
      using assms(2) ps by auto
    have le: "the_time (fst x) \<le> the_time (fst y)" using False xn yn by (simp add: dt_lt_time)
    have r: "sorted (the_time (fst y) #
        map (\<lambda>p. the_time (fst p)) (take (run_ascending dt_lt (fst y) ys) ys))"
      using ysn yn by (rule run_ascending_sorted)
    then have "sorted (map (\<lambda>p. the_time (fst p)) (take n ps))"
      using le unfolding n ps by fastforce
    then show ?thesis using d by (simp add: sort_key_id_if_sorted)
  qed
qed
qed

lemma list_sort_sort_key:
  assumes "\<forall>p \<in> set ps. fst p \<noteq> NaT"
  shows "list_sort dt_lt ps = sort_key (\<lambda>p. the_time (fst p)) ps"
proof (cases "length ps < 2")
  case True
  then have "ps = [] \<or> (\<exists>x. ps = [x])" by (cases ps) (auto simp: length_Suc_conv)
  then show ?thesis using True by (auto simp: list_sort_def)
next
  case False
  obtain n d where c: "count_run dt_lt ps = (n, d)" by (cases "count_run dt_lt ps")
  have tn: "\<forall>p \<in> set (take n ps). fst p \<noteq> NaT" using assms by (auto dest: in_set_takeD)
  have dn: "\<forall>p \<in> set (drop n ps). fst p \<noteq> NaT" using assms by (auto dest: in_set_dropD)
  have "list_sort dt_lt ps =
        binarysort dt_lt (sort_key (\<lambda>p. the_time (fst p)) (take n ps)) (drop n ps)"
    using False c count_run_sort_key [OF assms c] by (simp add: list_sort_def)
  also have "\<dots> = sort_key (\<lambda>p. the_time (fst p)) (take n ps @ drop n ps)"
    using tn dn by (rule binarysort_sort_key)
  finally show ?thesis by simp
qed


subsection \<open>Gathering and assembling\<close>

lemma traverse_Inr_iff:
  "traverse f xs = Inr ys \<longleftrightarrow> map f xs = map Inr ys"
proof (induction xs arbitrary: ys)
  case Nil
  show ?case by auto
next
  case (Cons x xs)
  show ?case
  proof (cases "f x")
    case (Inl e)
    then show ?thesis by (cases ys) auto
  next
    case (Inr y)
    show ?thesis
    proof (cases "traverse f xs")
      case (Inl e)
      with Inr Cons.IH show ?thesis by (cases ys) auto
    next
      case r: (Inr zs)
      with Inr Cons.IH [of zs] Cons.IH show ?thesis by (cases ys) auto
    qed
  qed
qed

lemma traverse_length: "traverse f xs = Inr ys \<Longrightarrow> length ys = length xs"
  by (metis traverse_Inr_iff length_map)

lemma traverse_map_total:
  "\<forall>x \<in> set xs. f x = Inr (g x) \<Longrightarrow> traverse f xs = Inr (map g xs)"
  by (induction xs) simp_all

lemma traverse_Inl_source:
  "traverse f xs = Inl e \<Longrightarrow> \<exists>x \<in> set xs. f x = Inl e"
  by (induction xs) (auto split: sum.splits)

lemma traverse_Inr_all:
  "traverse f xs = Inr ys \<Longrightarrow> x \<in> set xs \<Longrightarrow> \<exists>y. f x = Inr y"
  by (induction xs arbitrary: ys) (auto split: sum.splits)

lemma traverse_single_failure:
  assumes "k < length xs" and "f (xs ! k) = Inl e"
    and "\<forall>j < length xs. j \<noteq> k \<longrightarrow> (\<exists>y. f (xs ! j) = Inr y)"
  shows "traverse f xs = Inl e"
proof (cases "traverse f xs")
  case (Inl e')
  then obtain x where x: "x \<in> set xs" "f x = Inl e'" by (auto dest: traverse_Inl_source)
  then obtain j where j: "j < length xs" "xs ! j = x" by (auto simp: in_set_conv_nth)
  have "j = k"
  proof (rule ccontr)
    assume "j \<noteq> k"
    with assms(3) j obtain y where "f x = Inr y" by auto
    with x show False by simp
  qed
  with j x assms(2) have "e' = e" by simp
  with Inl show ?thesis by simp
next
  case (Inr ys)
  from assms(1) have "xs ! k \<in> set xs" by simp
  with Inr obtain y where "f (xs ! k) = Inr y" by (auto dest: traverse_Inr_all)
  with assms(2) show ?thesis by simp
qed

lemma traverse_first_time_if:
  "traverse first_time rs =
     (if \<forall>r \<in> set rs. snd r \<noteq> [] then Inr (map (\<lambda>r. hd (snd r)) rs) else Inl IndexError)"
  by (induction rs) (simp_all add: first_time_def split: list.splits)

lemma sorted_by_first_time:
  "\<forall>r \<in> set rs. snd r \<noteq> [] \<Longrightarrow>
   sorted_by first_time rs =
     Inr (map snd (list_sort dt_lt (zip (map (\<lambda>r. hd (snd r)) rs) rs)))"
  by (simp add: sorted_by_def traverse_first_time_if)

lemma sorted_by_first_time_fail:
  "\<exists>r \<in> set rs. snd r = [] \<Longrightarrow> sorted_by first_time rs = Inl IndexError"
  by (auto simp: sorted_by_def traverse_first_time_if)

lemma mset_sorted_results:
  "mset (map snd (list_sort lt (zip (map k rs) rs))) = mset rs"
proof -
  have "mset (map snd (list_sort lt (zip (map k rs) rs))) =
        image_mset snd (mset (list_sort lt (zip (map k rs) rs)))" by (rule mset_map)
  also have "\<dots> = image_mset snd (mset (zip (map k rs) rs))" by (simp only: mset_list_sort)
  also have "\<dots> = mset (map snd (zip (map k rs) rs))" by (rule mset_map [symmetric])
  also have "map snd (zip (map k rs) rs) = rs" by (simp add: map_snd_zip)
  finally show ?thesis .
qed

lemma insort_key_decorated:
  "\<forall>p \<in> set ps. h p = f (snd p) \<Longrightarrow> h (kx, x) = f x \<Longrightarrow>
   map snd (insort_key h (kx, x) ps) = insort_key f x (map snd ps)"
  by (induction ps) auto

lemma sort_key_decorated:
  "map snd (sort_key (\<lambda>p. g (fst p)) (zip (map k xs) xs)) = sort_key (\<lambda>x. g (k x)) xs"
proof (induction xs)
  case Nil
  show ?case by simp
next
  case (Cons x xs)
  have "\<forall>p \<in> set (sort_key (\<lambda>p. g (fst p)) (zip (map k xs) xs)). g (fst p) = g (k (snd p))"
    by (auto simp: set_zip)
  then show ?case using Cons.IH
    by (simp add: insort_key_decorated [where f = "\<lambda>x. g (k x)"])
qed

lemma sorted_results_times:
  assumes "\<forall>r \<in> set rs. k r \<noteq> NaT"
  shows "map snd (list_sort dt_lt (zip (map k rs) rs)) = sort_key (\<lambda>r. the_time (k r)) rs"
proof -
  have "\<forall>p \<in> set (zip (map k rs) rs). fst p \<noteq> NaT"
    using assms by (auto simp: set_zip)
  then show ?thesis by (simp add: list_sort_sort_key sort_key_decorated)
qed

lemma assemble_Inr_iff:
  "assemble rs = Inr out \<longleftrightarrow>
     (\<forall>r \<in> set rs. snd r \<noteq> []) \<and>
     out = \<lparr>result_values = map snd (list_sort dt_lt (zip (map (\<lambda>r. hd (snd r)) rs) rs)),
            Streamflow = map fst (map snd (list_sort dt_lt (zip (map (\<lambda>r. hd (snd r)) rs) rs))),
            Timestamp = map snd (map snd (list_sort dt_lt (zip (map (\<lambda>r. hd (snd r)) rs) rs)))\<rparr>"
proof (cases "\<forall>r \<in> set rs. snd r \<noteq> []")
  case True
  then show ?thesis by (auto simp: assemble_def sorted_by_first_time)
next
  case False
  then have "\<exists>r \<in> set rs. snd r = []" by blast
  then show ?thesis using False by (simp add: assemble_def sorted_by_first_time_fail)
qed

lemma assemble_times:
  assumes "\<forall>r \<in> set rs. snd r \<noteq> [] \<and> hd (snd r) \<noteq> NaT"
  shows "assemble rs =
     Inr \<lparr>result_values = sort_key (\<lambda>r. the_time (hd (snd r))) rs,
          Streamflow = map fst (sort_key (\<lambda>r. the_time (hd (snd r))) rs),
          Timestamp = map snd (sort_key (\<lambda>r. the_time (hd (snd r))) rs)\<rparr>"
proof -
  have "map snd (list_sort dt_lt (zip (map (\<lambda>r. hd (snd r)) rs) rs)) =
        sort_key (\<lambda>r. the_time (hd (snd r))) rs"
    using assms by (intro sorted_results_times) simp
  then show ?thesis using assms by (simp add: assemble_Inr_iff)
qed

lemma Parallel_length:
  "Parallel load_remote_json load_remote_ds files feature_ids = Inr gathered \<Longrightarrow>
   length gathered = length files"
  by (simp add: Parallel_def traverse_length)

lemma sorted_wrt_dt_le_no_NaT:
  assumes "sorted_wrt dt_le ks" and "2 \<le> length ks"
  shows "NaT \<notin> set ks"
proof
  assume "NaT \<in> set ks"
  then obtain i where i: "i < length ks" "ks ! i = NaT" by (auto simp: in_set_conv_nth)
  from assms(2) i obtain j where j: "j < length ks" "j \<noteq> i"
    by (metis Suc_1 Suc_le_lessD less_one nat_neq_iff not_less_zero zero_less_Suc
        less_trans)
  show False
  proof (cases "i < j")
    case True
    from sorted_wrt_nth_less [OF assms(1) True j(1)] i show False by simp
  next
    case False
    with j have "j < i" by simp
    from sorted_wrt_nth_less [OF assms(1) this i(1)] i show False
      by (cases "ks ! j") simp_all
  qed
qed


lemma concat_singletons:
  "\<forall>r \<in> set rs. length (snd r) = 1 \<Longrightarrow> concat (map snd rs) = map (\<lambda>r. hd (snd r)) rs"
proof (induction rs)
  case Nil
  show ?case by simp
next
  case (Cons r rs)
  then obtain t where "snd r = [t]" by (cases "snd r") auto
  with Cons show ?case by simp
qed

subsection \<open>Three locations, end to end\<close>

text \<open>
  Claim C1. Three locations whose headers resolve to datasets with the features
  \<open>[10, 20]\<close>, one time value each, \<open>t0 < t1 < t2\<close>, and the streamflow values
  \<open>[1.0, 2.0]\<close>, \<open>[1.1, 2.1]\<close> and \<open>[1.2, 2.2]\<close>. For every order of the
  locations the run with the feature identifiers \<open>[10, 20]\<close> returns, and for every
  order in which the three results are gathered the assembly gives the same output:
  the series of feature 10 (the first value of every entry of \<open>Streamflow\<close>) is
  \<open>[1.0, 1.1, 1.2]\<close>, that of feature 20 (the second value) is \<open>[2.0, 2.1, 2.2]\<close>,
  and the time values are \<open>[t0, t1, t2]\<close>.
\<close>

theorem end_to_end_three_locations:
  fixes t0 t1 t2 :: int
    and load_remote_json :: "'u \<Rightarrow> py_error + 'h"
    and load_remote_ds :: "'h \<Rightarrow> py_error + real dataset"
  assumes "t0 < t1" and "t1 < t2"
    and "load_remote_json u0 = Inr h0"
    and "load_remote_json u1 = Inr h1"
    and "load_remote_json u2 = Inr h2"
    and "load_remote_ds h0 = Inr \<lparr>feature_id = [10, 20], streamflow = [1, 2], time = [DT t0]\<rparr>"
    and "load_remote_ds h1 = Inr \<lparr>feature_id = [10, 20], streamflow = [11 / 10, 21 / 10], time = [DT t1]\<rparr>"
    and "load_remote_ds h2 = Inr \<lparr>feature_id = [10, 20], streamflow = [12 / 10, 22 / 10], time = [DT t2]\<rparr>"
    and "mset files = mset [u0, u1, u2]"
  shows "\<exists>gathered out.
           Parallel load_remote_json load_remote_ds files [10, 20] = Inr gathered \<and>
           pipeline load_remote_json load_remote_ds files [10, 20] = Inr out \<and>
           (\<forall>completed. mset completed = mset gathered \<longrightarrow> assemble completed = Inr out) \<and>
           Streamflow out = [[1, 2], [11 / 10, 21 / 10], [12 / 10, 22 / 10]] \<and>
           map (\<lambda>row. row ! 0) (Streamflow out) = [1, 11 / 10, 12 / 10] \<and>
           map (\<lambda>row. row ! 1) (Streamflow out) = [2, 21 / 10, 22 / 10] \<and>
           Timestamp out = [[DT t0], [DT t1], [DT t2]] \<and>
           concat (Timestamp out) = [DT t0, DT t1, DT t2]"
proof -
  let ?r0 = "([1, 2 :: real], [DT t0])"
  let ?r1 = "([11 / 10, 21 / 10 :: real], [DT t1])"
  let ?r2 = "([12 / 10, 22 / 10 :: real], [DT t2])"
  let ?rs = "[?r0, ?r1, ?r2]"
  let ?out = "\<lparr>result_values = ?rs, Streamflow = map fst ?rs, Timestamp = map snd ?rs\<rparr>"
  let ?pf = "\<lambda>file_url. process_file load_remote_json load_remote_ds file_url [10, 20]"
  let ?g = "\<lambda>u. if u = u0 then ?r0 else if u = u1 then ?r1 else ?r2"
  let ?key = "\<lambda>r :: real list \<times> datetime64 list. the_time (hd (snd r))"
  have p0: "?pf u0 = Inr ?r0"
    using assms(3,6)
    by (simp add: process_file_def select_flow_def sel_def get_indexer_def isel_def select_time_def)
  have p1: "?pf u1 = Inr ?r1"
    using assms(4,7)
    by (simp add: process_file_def select_flow_def sel_def get_indexer_def isel_def select_time_def)
  have p2: "?pf u2 = Inr ?r2"
    using assms(5,8)
    by (simp add: process_file_def select_flow_def sel_def get_indexer_def isel_def select_time_def)
  have ne: "u0 \<noteq> u1" "u1 \<noteq> u2" "u0 \<noteq> u2"
    using p0 p1 p2 assms(1,2) by auto
  have "set files = set [u0, u1, u2]" using assms(9) by (rule mset_eq_setD)
  then have "\<forall>u \<in> set files. ?pf u = Inr (?g u)"
    using p0 p1 p2 ne by auto
  then have par: "Parallel load_remote_json load_remote_ds files [10, 20] = Inr (map ?g files)"
    unfolding Parallel_def by (rule traverse_map_total)
  have "mset (map ?g files) = image_mset ?g (mset [u0, u1, u2])"
    using assms(9) by (metis mset_map)
  then have mg: "mset (map ?g files) = mset ?rs"
    using ne by simp
  have asm: "assemble completed = Inr ?out" if c: "mset completed = mset (map ?g files)"
    for completed
  proof -
    from c mg have cm: "mset completed = mset ?rs" by simp
    then have "set completed = set ?rs" by (rule mset_eq_setD)
    then have times: "\<forall>r \<in> set completed. snd r \<noteq> [] \<and> hd (snd r) \<noteq> NaT" by simp
    have "distinct (map ?key ?rs)" using assms(1,2) by simp
    then have "sort_key ?key completed = sort_key ?key ?rs"
      using cm by (rule sort_key_perm)
    also have "sort_key ?key ?rs = ?rs"
      using assms(1,2) by (intro sort_key_id_if_sorted) simp
    finally show ?thesis using times
      by (simp add: assemble_times)
  qed
  have pipe: "pipeline load_remote_json load_remote_ds files [10, 20] = Inr ?out"
    using par asm [of "map ?g files"] by (simp add: pipeline_def)
  show ?thesis
    apply (rule exI [of _ "map ?g files"])
    apply (rule exI [of _ ?out])
    using par pipe asm by simp
qed

theorem end_to_end_three_locations_witness:
  "pipeline (\<lambda>u. Inr u)
     (\<lambda>h. if h = ''f0'' then Inr \<lparr>feature_id = [10, 20], streamflow = [1, 2 :: real], time = [DT 100]\<rparr>
          else if h = ''f1'' then Inr \<lparr>feature_id = [10, 20], streamflow = [11 / 10, 21 / 10], time = [DT 200]\<rparr>
          else Inr \<lparr>feature_id = [10, 20], streamflow = [12 / 10, 22 / 10], time = [DT 300]\<rparr>)
     [''f2'', ''f0'', ''f1''] [10, 20] =
   Inr \<lparr>result_values = [([1, 2], [DT 100]), ([11 / 10, 21 / 10], [DT 200]), ([12 / 10, 22 / 10], [DT 300])],
        Streamflow = [[1, 2], [11 / 10, 21 / 10], [12 / 10, 22 / 10]],
        Timestamp = [[DT 100], [DT 200], [DT 300]]\<rparr>"
  using end_to_end_three_locations [of 100 200 300 "\<lambda>u. Inr u" "''f0''" "''f0''" "''f1''" "''f1''" "''f2''" "''f2''"
     "\<lambda>h. if h = ''f0'' then Inr \<lparr>feature_id = [10, 20], streamflow = [1, 2 :: real], time = [DT 100]\<rparr>
          else if h = ''f1'' then Inr \<lparr>feature_id = [10, 20], streamflow = [11 / 10, 21 / 10], time = [DT 200]\<rparr>
          else Inr \<lparr>feature_id = [10, 20], streamflow = [12 / 10, 22 / 10], time = [DT 300]\<rparr>"
     "[''f2'', ''f0'', ''f1'']"]
  by (simp add: pipeline_def Parallel_def process_file_def select_flow_def sel_def get_indexer_def
      isel_def select_time_def assemble_def sorted_by_def first_time_def
      list_sort_def binarysort_def binary_insert_def bisect.simps)

subsection \<open>The assembled time values are in order\<close>

text \<open>
  Claim C2, as stated, fails. Three results with one time value each, \<open>5\<close>,
  \<open>NaT\<close> and \<open>3\<close>: no comparison with \<open>NaT\<close> is true, so the sort finds one
  ascending run and returns the list as it is, and the time value \<open>5\<close> at position
  0 of the assembled sequence is not at most the time value \<open>3\<close> at position 2.
\<close>

theorem assemble_nat_counterexample:
  "list_all (\<lambda>r. length (snd r) = 1) [([1::int], [DT 5]), ([2], [NaT]), ([3], [DT 3])] \<and>
   assemble [([1::int], [DT 5]), ([2], [NaT]), ([3], [DT 3])] =
     Inr \<lparr>result_values = [([1], [DT 5]), ([2], [NaT]), ([3], [DT 3])],
          Streamflow = [[1], [2], [3]], Timestamp = [[DT 5], [NaT], [DT 3]]\<rparr> \<and>
   concat [[DT 5], [NaT], [DT 3]] ! 0 = DT 5 \<and>
   concat [[DT 5], [NaT], [DT 3]] ! 2 = DT 3 \<and>
   \<not> dt_le (DT 5) (DT 3)"
  by (simp add: assemble_def sorted_by_def first_time_def
      list_sort_def binarysort_def binary_insert_def bisect.simps)

text \<open>
  Claim C2, amended. When every gathered result carries exactly one time value and
  that value is a time (not \<open>NaT\<close>), the sort succeeds and the time values of
  \<open>Timestamp\<close>, read in sequence, never decrease: for all positions \<open>i < j\<close> the
  value at \<open>i\<close> is at most the value at \<open>j\<close>.
\<close>

theorem assemble_timestamps_nondecreasing:
  assumes "\<forall>r \<in> set gathered. \<exists>t. snd r = [DT t]"
  shows "\<exists>out. assemble gathered = Inr out \<and>
           (\<forall>i j. i < j \<and> j < length (concat (Timestamp out)) \<longrightarrow>
                  dt_le (concat (Timestamp out) ! i) (concat (Timestamp out) ! j))"
proof -
  let ?key = "\<lambda>r :: 'a list \<times> datetime64 list. the_time (hd (snd r))"
  let ?s = "sort_key ?key gathered"
  let ?out = "\<lparr>result_values = ?s, Streamflow = map fst ?s, Timestamp = map snd ?s\<rparr>"
  have "\<forall>r \<in> set gathered. snd r \<noteq> [] \<and> hd (snd r) \<noteq> NaT" using assms by auto
  then have a: "assemble gathered = Inr ?out" by (rule assemble_times)
  have one: "\<forall>r \<in> set ?s. length (snd r) = 1" using assms by auto
  have c: "concat (Timestamp ?out) = map (\<lambda>r. hd (snd r)) ?s"
    using one by (simp add: concat_singletons)
  have dt: "hd (snd (?s ! n)) = DT (?key (?s ! n))" if "n < length ?s" for n
  proof -
    from that have "?s ! n \<in> set ?s" by (rule nth_mem)
    then have "?s ! n \<in> set gathered" by simp
    with assms show ?thesis by auto
  qed
  have "dt_le (concat (Timestamp ?out) ! i) (concat (Timestamp ?out) ! j)"
    if ij: "i < j" "j < length (concat (Timestamp ?out))" for i j
  proof -
    from ij c have j: "j < length ?s" and i: "i < length ?s" by simp_all
    have "sorted (map ?key ?s)" by (rule sorted_sort_key)
    from sorted_nth_mono [OF this, of i j] ij i j
    have "?key (?s ! i) \<le> ?key (?s ! j)" by simp
    moreover have "concat (Timestamp ?out) ! i = DT (?key (?s ! i))"
      unfolding c using i dt [of i] by simp
    moreover have "concat (Timestamp ?out) ! j = DT (?key (?s ! j))"
      unfolding c using j dt [of j] by simp
    ultimately show ?thesis by simp
  qed
  with a show ?thesis by blast
qed

theorem assemble_timestamps_nondecreasing_witness:
  "\<exists>out. assemble [([1::int, 2], [DT 7]), ([3, 4], [DT 5])] = Inr out \<and>
     concat (Timestamp out) = [DT 5, DT 7] \<and>
     dt_le (concat (Timestamp out) ! 0) (concat (Timestamp out) ! 1)"
  using assemble_timestamps_nondecreasing [of "[([1::int, 2], [DT 7]), ([3, 4], [DT 5])]"]
  by (simp add: assemble_def sorted_by_def first_time_def
      list_sort_def binarysort_def binary_insert_def bisect.simps)


subsection \<open>Sorting an already sorted list and its reverse\<close>

text \<open>
  Claim C3, as stated, fails: two results with the same first time value are sorted
  by time in either order, and the stable sort keeps each order as it is given, so
  the list and its reverse are assembled differently.
\<close>

theorem assemble_reverse_counterexample:
  "sorted_wrt dt_le (map (\<lambda>r. hd (snd r)) [([1::int], [DT 5]), ([2], [DT 5])]) \<and>
   assemble [([1::int], [DT 5]), ([2], [DT 5])] \<noteq>
     assemble (rev [([1::int], [DT 5]), ([2], [DT 5])])"
  by (simp add: assemble_def sorted_by_def first_time_def
      list_sort_def binarysort_def binary_insert_def bisect.simps)

text \<open>
  Claim C3, amended. For every list of results that is sorted by first time value
  and in which no two results share their first time value, assembling the reversed
  list gives the same output as assembling the list itself, and that output holds the
  results in the order of the list.
\<close>

theorem assemble_reverse_distinct:
  assumes "\<forall>r \<in> set rs. snd r \<noteq> []"
    and "sorted_wrt dt_le (map (\<lambda>r. hd (snd r)) rs)"
    and "distinct (map (\<lambda>r. hd (snd r)) rs)"
  shows "assemble (rev rs) = assemble rs \<and>
         assemble rs = Inr \<lparr>result_values = rs, Streamflow = map fst rs, Timestamp = map snd rs\<rparr>"
proof (cases "length rs < 2")
  case True
  then have "rs = [] \<or> (\<exists>r. rs = [r])" by (cases rs) (auto simp: length_Suc_conv)
  then have "rev rs = rs" by auto
  moreover have "assemble rs =
      Inr \<lparr>result_values = rs, Streamflow = map fst rs, Timestamp = map snd rs\<rparr>"
    using True assms(1) by (simp add: assemble_Inr_iff list_sort_def map_snd_zip)
  ultimately show ?thesis by simp
next
  case False
  let ?key = "\<lambda>r :: 'a list \<times> datetime64 list. the_time (hd (snd r))"
  have "NaT \<notin> set (map (\<lambda>r. hd (snd r)) rs)"
    using assms(2) False by (intro sorted_wrt_dt_le_no_NaT) simp_all
  then have nf: "NaT \<notin> (\<lambda>r. hd (snd r)) ` set rs" by simp
  have nn: "\<forall>r \<in> set rs. hd (snd r) \<noteq> NaT"
  proof
    fix r assume "r \<in> set rs"
    then have "hd (snd r) \<in> (\<lambda>r. hd (snd r)) ` set rs" by (rule imageI)
    with nf show "hd (snd r) \<noteq> NaT" by metis
  qed
  then have times: "\<forall>r \<in> set rs. snd r \<noteq> [] \<and> hd (snd r) \<noteq> NaT"
    using assms(1) by simp
  have inj: "inj_on the_time (set (map (\<lambda>r. hd (snd r)) rs))"
  proof (rule inj_onI)
    fix a b
    assume "a \<in> set (map (\<lambda>r. hd (snd r)) rs)" "b \<in> set (map (\<lambda>r. hd (snd r)) rs)"
      and "the_time a = the_time b"
    with nn show "a = b" by (cases a; cases b) auto
  qed
  have d: "distinct (map ?key rs)"
    using assms(3) inj by (simp add: distinct_map comp_def inj_on_def)
  have "sorted_wrt (\<lambda>a b. ?key a \<le> ?key b) rs"
  proof (rule sorted_wrt_mono_rel [of rs "\<lambda>a b. dt_le (hd (snd a)) (hd (snd b))"])
    show "sorted_wrt (\<lambda>a b. dt_le (hd (snd a)) (hd (snd b))) rs"
      using assms(2) by (simp add: sorted_wrt_map)
    fix a b assume "a \<in> set rs" "b \<in> set rs" "dt_le (hd (snd a)) (hd (snd b))"
    with nn show "?key a \<le> ?key b" by (simp add: dt_le_time)
  qed
  then have s: "sorted (map ?key rs)" by (simp add: sorted_wrt_map)
  have "sort_key ?key (rev rs) = sort_key ?key rs"
    using d by (intro sort_key_perm) simp_all
  moreover have "sort_key ?key rs = rs"
    using s by (rule sort_key_id_if_sorted)
  moreover have "\<forall>r \<in> set (rev rs). snd r \<noteq> [] \<and> hd (snd r) \<noteq> NaT"
    using times by simp
  ultimately show ?thesis using times
    by (simp add: assemble_times)
qed

theorem assemble_reverse_distinct_witness:
  "assemble (rev [([1::int], [DT 5]), ([2], [DT 6])]) = assemble [([1::int], [DT 5]), ([2], [DT 6])] \<and>
   assemble [([1::int], [DT 5]), ([2], [DT 6])] =
     Inr \<lparr>result_values = [([1], [DT 5]), ([2], [DT 6])], Streamflow = [[1], [2]],
          Timestamp = [[DT 5], [DT 6]]\<rparr>"
  using assemble_reverse_distinct [of "[([1::int], [DT 5]), ([2], [DT 6])]"] by simp

subsection \<open>Nothing is dropped and nothing is duplicated\<close>

text \<open>
  Claim C9. Whenever the assembly returns, the sorted list is a permutation of the
  gathered list, and \<open>Streamflow\<close> and \<open>Timestamp\<close> are its two projections, each
  as long as the gathered list; it returns whenever every result has a time value.
  When the whole run returns, the three lists are as long as the list of files.
\<close>

theorem assemble_permutation:
  "((\<forall>r \<in> set gathered. snd r \<noteq> []) \<longrightarrow> (\<exists>out'. assemble gathered = Inr out')) \<and>
   (assemble gathered = Inr out \<longrightarrow>
      mset (result_values out) = mset gathered \<and>
      Streamflow out = map fst (result_values out) \<and>
      Timestamp out = map snd (result_values out) \<and>
      length (Streamflow out) = length gathered \<and>
      length (Timestamp out) = length gathered) \<and>
   (pipeline load_remote_json load_remote_ds files feature_ids = Inr out \<longrightarrow>
      length (Streamflow out) = length files \<and> length (Timestamp out) = length files)"
proof -
  have perm: "mset (result_values out) = mset g \<and>
      Streamflow out = map fst (result_values out) \<and>
      Timestamp out = map snd (result_values out) \<and>
      length (Streamflow out) = length g \<and> length (Timestamp out) = length g"
    if a: "assemble g = Inr out" for g
  proof -
    have rv: "result_values out =
        map snd (list_sort dt_lt (zip (map (\<lambda>r. hd (snd r)) g) g))"
      using a by (simp add: assemble_Inr_iff)
    have m: "mset (result_values out) = mset g"
      unfolding rv by (rule mset_sorted_results)
    from a have "Streamflow out = map fst (result_values out)"
      and "Timestamp out = map snd (result_values out)"
      by (simp_all add: assemble_Inr_iff)
    moreover note m
    moreover from m have "length (result_values out) = length g" by (rule mset_eq_length)
    ultimately show ?thesis by simp
  qed
  have "length (Streamflow out) = length files \<and> length (Timestamp out) = length files"
    if p: "pipeline load_remote_json load_remote_ds files feature_ids = Inr out"
  proof -
    from p obtain g where
      g: "Parallel load_remote_json load_remote_ds files feature_ids = Inr g"
      and a: "assemble g = Inr out"
      by (auto simp: pipeline_def split: sum.splits)
    from g have l: "length g = length files" by (rule Parallel_length)
    from perm [OF a] have "length (Streamflow out) = length g"
      and "length (Timestamp out) = length g" by blast+
    then show ?thesis unfolding l by (rule conjI)
  qed
  moreover have "(\<forall>r \<in> set gathered. snd r \<noteq> []) \<longrightarrow> (\<exists>out'. assemble gathered = Inr out')"
    by (simp add: assemble_Inr_iff)
  ultimately show ?thesis using perm [of gathered] by blast
qed

theorem assemble_permutation_witness:
  "assemble [([1::int, 2], [DT 7]), ([3, 4], [DT 5])] =
     Inr \<lparr>result_values = [([3, 4], [DT 5]), ([1, 2], [DT 7])],
          Streamflow = [[3, 4], [1, 2]], Timestamp = [[DT 5], [DT 7]]\<rparr> \<and>
   mset [([3::int, 4], [DT 5]), ([1, 2], [DT 7])] = mset [([1, 2], [DT 7]), ([3, 4], [DT 5])] \<and>
   length [[3::int, 4], [1, 2]] = length [([1::int, 2], [DT 7]), ([3, 4], [DT 5])]"
  using assemble_permutation [of "[([1::int, 2], [DT 7]), ([3, 4], [DT 5])]"
     "\<lparr>result_values = [([3, 4], [DT 5]), ([1, 2], [DT 7])],
          Streamflow = [[3, 4], [1, 2]], Timestamp = [[DT 5], [DT 7]]\<rparr>"]
  by (simp add: assemble_def sorted_by_def first_time_def
      list_sort_def binarysort_def binary_insert_def bisect.simps)

subsection \<open>A result without a time value\<close>

text \<open>
  Claim C10. If some gathered result has an empty time array, the assembly raises
  \<open>IndexError\<close>: the key of the sort reads the first time value, and there is none.
  No assembled series is returned.
\<close>

theorem assemble_empty_time_fails:
  "(\<exists>r \<in> set gathered. snd r = []) \<Longrightarrow> assemble gathered = Inl IndexError"
  by (simp add: assemble_def sorted_by_first_time_fail)

theorem assemble_empty_time_fails_witness:
  "assemble [([1::int, 2], [DT 5]), ([3, 4], [])] = Inl IndexError"
  using assemble_empty_time_fails [of "[([1::int, 2], [DT 5]), ([3, 4], [])]"] by simp

subsection \<open>One failing location\<close>

text \<open>
  Claim C5. For every batch of locations in which the call of \<open>process_file\<close>
  fails for exactly one location and returns for every other, the dispatch raises
  the error of that location, and so does the whole run: no list of the remaining
  results is returned and nothing is assembled from them.
\<close>

theorem single_failure_surfaces:
  assumes "k < length files"
    and "process_file load_remote_json load_remote_ds (files ! k) feature_ids = Inl e"
    and "\<forall>j < length files. j \<noteq> k \<longrightarrow>
           (\<exists>r. process_file load_remote_json load_remote_ds (files ! j) feature_ids = Inr r)"
  shows "Parallel load_remote_json load_remote_ds files feature_ids = Inl e \<and>
         pipeline load_remote_json load_remote_ds files feature_ids = Inl e"
proof -
  have "Parallel load_remote_json load_remote_ds files feature_ids = Inl e"
    unfolding Parallel_def using assms by (intro traverse_single_failure [where k = k]) auto
  then show ?thesis by (simp add: pipeline_def)
qed

theorem single_failure_surfaces_witness:
  "pipeline (\<lambda>u. if u = ''b'' then Inl OSError else Inr u)
     (\<lambda>h :: string. Inr \<lparr>feature_id = [10, 20], streamflow = [1 :: int, 2], time = [DT 0]\<rparr>)
     [''a'', ''b'', ''c''] [10, 20] = Inl OSError \<and>
   process_file (\<lambda>u. if u = ''b'' then Inl OSError else Inr u)
     (\<lambda>h :: string. Inr \<lparr>feature_id = [10, 20], streamflow = [1 :: int, 2], time = [DT 0]\<rparr>)
     ''a'' [10, 20] = Inr ([1, 2], [DT 0])"
  using single_failure_surfaces
    [of 1 "[''a'', ''b'', ''c'']" "\<lambda>u. if u = ''b'' then Inl OSError else Inr u"
        "\<lambda>h :: string. Inr \<lparr>feature_id = [10, 20], streamflow = [1 :: int, 2], time = [DT 0]\<rparr>"
        "[10, 20]" OSError]
  by (simp add: process_file_def select_flow_def sel_def get_indexer_def isel_def select_time_def
      nth_Cons split: nat.splits)

subsection \<open>The number of workers\<close>

text \<open>
  Claim C7, as stated, fails: on a host with four cores and a list of one location
  the number of workers configured is four, more than the number of locations.
\<close>

theorem n_jobs_counterexample:
  "\<not> (1 \<le> n_jobs 4 [''a''] \<and> n_jobs 4 [''a''] \<le> int (length [''a'']))"
  by (simp add: n_jobs_def)

text \<open>
  Claim C7, amended. The number of workers configured for the dispatcher is the
  number of cores of the host, whatever the list of locations is: it is at least 1
  whenever the number of cores is, and it exceeds the number of locations whenever
  the number of cores does.
\<close>

theorem n_jobs_is_num_cores:
  "n_jobs num_cores files = num_cores \<and>
   (1 \<le> num_cores \<longrightarrow> 1 \<le> n_jobs num_cores files) \<and>
   (int (length files) < num_cores \<longrightarrow> int (length files) < n_jobs num_cores files)"
  by (simp add: n_jobs_def)

theorem n_jobs_is_num_cores_witness:
  "n_jobs 4 [''a''] = 4 \<and> 1 \<le> n_jobs 4 [''a''] \<and> int (length [''a'']) < n_jobs 4 [''a'']"
  using n_jobs_is_num_cores [of 4 "[''a'']"] by simp


subsection \<open>Selecting a feature that the dataset does not have\<close>

lemma get_loc_None_iff: "get_loc index i = None \<longleftrightarrow> i \<notin> set index"
  by (induction index) auto

lemma indexer_None_iff:
  "None \<in> get_loc index ` set labels \<longleftrightarrow> \<not> set labels \<subseteq> set index"
proof -
  have "None \<in> get_loc index ` set labels \<longleftrightarrow> (\<exists>i \<in> set labels. get_loc index i = None)"
    unfolding image_iff by (metis (full_types))
  then show ?thesis by (auto simp: get_loc_None_iff)
qed

lemma sel_repeated_labels:
  "\<not> distinct (feature_id ds) \<Longrightarrow> sel ds labels = Inl InvalidIndexError"
  by (simp add: sel_def get_indexer_def)

lemma sel_missing_label:
  "distinct (feature_id ds) \<Longrightarrow> \<not> set labels \<subseteq> set (feature_id ds) \<Longrightarrow>
   sel ds labels = Inl KeyError"
  by (simp add: sel_def get_indexer_def indexer_None_iff)

lemma get_loc_Some:
  "get_loc index i = Some p \<Longrightarrow> p < length index \<and> index ! p = i"
  by (induction index arbitrary: p) (auto split: if_splits)

lemma get_loc_map_of:
  "get_loc index i = Some p \<Longrightarrow> length vals = length index \<Longrightarrow>
   map_of (zip index vals) i = Some (vals ! p)"
proof (induction index arbitrary: p vals)
  case Nil
  then show ?case by simp
next
  case (Cons c cs)
  then obtain v vs where vals: "vals = v # vs" by (cases vals) auto
  with Cons show ?case by (auto split: if_splits)
qed

lemma sel_present:
  assumes "length (streamflow ds) = length (feature_id ds)"
    and "distinct (feature_id ds)"
    and "set labels \<subseteq> set (feature_id ds)"
  shows "sel ds labels = Inr (map (\<lambda>i. streamflow ds ! the (get_loc (feature_id ds) i)) labels)"
proof -
  have n: "None \<notin> get_loc (feature_id ds) ` set labels"
    using assms(3) by (simp add: indexer_None_iff)
  have "\<forall>i \<in> set labels. the (get_loc (feature_id ds) i) < length (streamflow ds)"
  proof
    fix i assume "i \<in> set labels"
    with assms(3) have "i \<in> set (feature_id ds)" by auto
    then obtain p where "get_loc (feature_id ds) i = Some p"
      by (cases "get_loc (feature_id ds) i") (auto simp: get_loc_None_iff)
    then show "the (get_loc (feature_id ds) i) < length (streamflow ds)"
      using assms(1) by (auto dest: get_loc_Some)
  qed
  then show ?thesis using n assms(2)
    by (simp add: sel_def isel_def get_indexer_def comp_def)
qed

text \<open>
  Claim C4. For every dataset and every list of requested feature identifiers that
  contains an identifier absent from the labels of the dataset's \<open>feature_id\<close>
  dimension, \<open>select_flow\<close> fails and returns no value. When the labels of the
  dimension are a set (no label is repeated), the failure is the \<open>KeyError\<close> of
  the label selection, the error for a feature that is not found, and
  \<open>process_file\<close> fails with it on a location that resolves to that dataset.
\<close>

theorem select_flow_missing_label:
  assumes "\<not> set feature_ids \<subseteq> set (feature_id ds)"
  shows "(\<exists>e. select_flow ds feature_ids = Inl e) \<and>
   (distinct (feature_id ds) \<longrightarrow>
      select_flow ds feature_ids = Inl KeyError \<and>
      (load_remote_json file_url = Inr json_obj \<and> load_remote_ds json_obj = Inr ds \<longrightarrow>
         process_file load_remote_json load_remote_ds file_url feature_ids = Inl KeyError))"
proof (cases "distinct (feature_id ds)")
  case True
  then have "select_flow ds feature_ids = Inl KeyError"
    using assms by (simp add: select_flow_def sel_missing_label)
  then show ?thesis by (simp add: process_file_def)
next
  case False
  then have "select_flow ds feature_ids = Inl InvalidIndexError"
    by (simp add: select_flow_def sel_repeated_labels)
  with False show ?thesis by simp
qed

theorem select_flow_missing_label_witness:
  "\<not> set [10, 999] \<subseteq> set [10, 20 :: int] \<and> distinct [10, 20 :: int] \<and>
   select_flow \<lparr>feature_id = [10, 20], streamflow = [1 :: int, 2], time = [DT 0]\<rparr> [10, 999]
     = Inl KeyError \<and>
   process_file (\<lambda>u. Inr u)
     (\<lambda>h :: string. Inr \<lparr>feature_id = [10, 20], streamflow = [1 :: int, 2], time = [DT 0]\<rparr>)
     ''a'' [10, 999] = Inl KeyError"
  using select_flow_missing_label
    [of "[10, 999]" "\<lparr>feature_id = [10, 20], streamflow = [1 :: int, 2], time = [DT 0]\<rparr>"
        "\<lambda>u. Inr u" "''a''" "''a''"
        "\<lambda>h :: string. Inr \<lparr>feature_id = [10, 20], streamflow = [1 :: int, 2], time = [DT 0]\<rparr>"]
  by simp

subsection \<open>Selecting features that the dataset has\<close>

text \<open>
  Claim C6. For every header that resolves to a well-formed dataset and every list
  of requested identifiers that are all among the dataset's labels, \<open>select_flow\<close>
  returns as many values as identifiers were requested, the value at position \<open>k\<close>
  being the streamflow of the identifier requested at position \<open>k\<close>;
  \<open>process_file\<close> returns these values together with the time coordinate.
\<close>

theorem select_flow_length:
  assumes "load_remote_ds json_obj = Inr ds" and "valid_ds ds"
    and "set feature_ids \<subseteq> set (feature_id ds)"
  shows "\<exists>vs. select_flow ds feature_ids = Inr vs \<and> length vs = length feature_ids \<and>
           (\<forall>k < length feature_ids.
              map_of (zip (feature_id ds) (streamflow ds)) (feature_ids ! k) = Some (vs ! k)) \<and>
           (load_remote_json file_url = Inr json_obj \<longrightarrow>
              process_file load_remote_json load_remote_ds file_url feature_ids
                = Inr (vs, time ds))"
proof -
  let ?vs = "map (\<lambda>i. streamflow ds ! the (get_loc (feature_id ds) i)) feature_ids"
  have len: "length (streamflow ds) = length (feature_id ds)"
    and dist: "distinct (feature_id ds)"
    using assms(2) by (simp_all add: valid_ds_def)
  have s: "select_flow ds feature_ids = Inr ?vs"
    using len dist assms(3) by (simp add: select_flow_def sel_present)
  have al: "map_of (zip (feature_id ds) (streamflow ds)) (feature_ids ! k) = Some (?vs ! k)"
    if k: "k < length feature_ids" for k
  proof -
    from k assms(3) have "feature_ids ! k \<in> set (feature_id ds)" by auto
    then obtain p where p: "get_loc (feature_id ds) (feature_ids ! k) = Some p"
      by (cases "get_loc (feature_id ds) (feature_ids ! k)") (auto simp: get_loc_None_iff)
    from get_loc_map_of [OF p len] p k show ?thesis by simp
  qed
  have "load_remote_json file_url = Inr json_obj \<longrightarrow>
          process_file load_remote_json load_remote_ds file_url feature_ids = Inr (?vs, time ds)"
    using s assms(1) by (simp add: process_file_def select_time_def)
  with s al show ?thesis by auto
qed

theorem select_flow_length_witness:
  "\<exists>vs. select_flow \<lparr>feature_id = [10, 20, 30], streamflow = [1 :: int, 2, 3], time = [DT 0]\<rparr> [30, 10]
           = Inr vs \<and> length vs = length [30 :: int, 10] \<and> vs = [3, 1] \<and>
     process_file (\<lambda>u. Inr u)
       (\<lambda>h :: string. Inr \<lparr>feature_id = [10, 20, 30], streamflow = [1 :: int, 2, 3], time = [DT 0]\<rparr>)
       ''a'' [30, 10] = Inr (vs, [DT 0])"
  using select_flow_length
    [of "\<lambda>h :: string. Inr \<lparr>feature_id = [10, 20, 30], streamflow = [1 :: int, 2, 3], time = [DT 0]\<rparr>"
        "''a''" "\<lparr>feature_id = [10, 20, 30], streamflow = [1 :: int, 2, 3], time = [DT 0]\<rparr>"
        "[30, 10]" "\<lambda>u. Inr u" "''a''"]
  by (simp add: valid_ds_def select_flow_def sel_def get_indexer_def isel_def process_file_def
      select_time_def)


subsection \<open>The list of locations read from a text file\<close>

lemma read_files_map:
  "read_files content = map strip (file_lines [] (universal_newlines content))"
proof -
  have "foldl (\<lambda>files line. files @ [strip line]) acc ls = acc @ map strip ls" for acc ls
    by (induction ls arbitrary: acc) simp_all
  then show ?thesis by (simp add: read_files_def)
qed

lemma universal_newlines_no_CR: "0x0D \<notin> set (universal_newlines content)"
  by (induction content rule: universal_newlines.induct) simp_all

lemma length_file_lines:
  "length (file_lines cur s) =
     count_list s 0x0A +
     (if s = [] then (if cur = [] then 0 else 1) else if last s = 0x0A then 0 else 1)"
  by (induction s arbitrary: cur) auto

lemma strip_ends:
  "strip s = [] \<or> (\<not> is_space (hd (strip s)) \<and> \<not> is_space (last (strip s)))"
proof (cases "strip s = []")
  case True
  then show ?thesis by simp
next
  case False
  let ?d = "dropWhile is_space s"
  let ?e = "dropWhile is_space (rev ?d)"
  from False have e: "?e \<noteq> []" by (simp add: strip_def)
  then have he: "\<not> is_space (hd ?e)" by (rule hd_dropWhile)
  have l: "last (strip s) = hd ?e" using e by (simp add: strip_def last_rev)
  from e have d: "?d \<noteq> []" by (auto dest: set_dropWhileD)
  then have hdd: "\<not> is_space (hd ?d)" by (rule hd_dropWhile)
  have "rev ?d = takeWhile is_space (rev ?d) @ ?e" by simp
  then have "?d = rev ?e @ rev (takeWhile is_space (rev ?d))"
    by (metis rev_append rev_rev_ident)
  then have "hd ?d = hd (rev ?e)" using e by (metis hd_append2 rev_is_Nil_conv)
  with hdd have "\<not> is_space (hd (strip s))" by (simp add: strip_def)
  with l he show ?thesis by simp
qed

lemma strip_decomp:
  "\<exists>pre suf. s = pre @ strip s @ suf \<and> (\<forall>c \<in> set pre. is_space c) \<and> (\<forall>c \<in> set suf. is_space c)"
proof -
  let ?d = "dropWhile is_space s"
  let ?pre = "takeWhile is_space s"
  let ?suf = "rev (takeWhile is_space (rev ?d))"
  have "rev ?d = takeWhile is_space (rev ?d) @ dropWhile is_space (rev ?d)" by simp
  then have "?d = strip s @ ?suf" unfolding strip_def by (metis rev_append rev_rev_ident)
  then have "s = ?pre @ strip s @ ?suf" by (metis takeWhile_dropWhile_id)
  moreover have "\<forall>c \<in> set ?pre. is_space c" by (auto dest: set_takeWhileD)
  moreover have "\<forall>c \<in> set ?suf. is_space c" by (auto dest: set_takeWhileD)
  ultimately show ?thesis by blast
qed

lemma strip_blank: "(\<forall>c \<in> set s. is_space c) \<Longrightarrow> strip s = []"
  by (auto simp: strip_def dest: set_dropWhileD)

text \<open>
  Claim C8, as stated, fails: a file of three lines whose second line is blank is
  read as three entries, the second being the empty string. The blank line is not
  ignored.
\<close>

theorem read_files_counterexample:
  "file_lines [] (universal_newlines [97, 10, 10, 98, 10]) = [[97, 10], [10], [98, 10]] \<and>
   strip [10] = [] \<and>
   read_files [97, 10, 10, 98, 10] = [[97], [], [98]]"
  by (simp add: read_files_def strip_def is_space_def)

text \<open>
  Claim C8, amended. For every text file the reader produces exactly one entry per
  line, in the order of the lines: the line without its leading and trailing white
  space. The lines are those of the text after the translation of the line ends,
  which leaves no carriage return: the entries are as many as the line feeds of that
  text, plus one when its last line has no line feed. A blank line is not ignored:
  its entry is the empty string.
\<close>

theorem read_files_one_entry_per_line:
  "0x0D \<notin> set (universal_newlines content) \<and>
   length (read_files content) = length (file_lines [] (universal_newlines content)) \<and>
   length (read_files content) =
     count_list (universal_newlines content) 0x0A +
     (if universal_newlines content = [] \<or> last (universal_newlines content) = 0x0A
      then 0 else 1) \<and>
   (\<forall>k < length (file_lines [] (universal_newlines content)).
      read_files content ! k = strip (file_lines [] (universal_newlines content) ! k) \<and>
      (\<exists>pre suf. file_lines [] (universal_newlines content) ! k
                   = pre @ read_files content ! k @ suf \<and>
         (\<forall>c \<in> set pre. is_space c) \<and> (\<forall>c \<in> set suf. is_space c)) \<and>
      ((\<forall>c \<in> set (file_lines [] (universal_newlines content) ! k). is_space c) \<longrightarrow>
         read_files content ! k = [])) \<and>
   (\<forall>url \<in> set (read_files content).
      url = [] \<or> (\<not> is_space (hd url) \<and> \<not> is_space (last url)))"
proof -
  let ?ls = "file_lines [] (universal_newlines content)"
  have 1: "length (read_files content) = length ?ls"
    by (simp add: read_files_map)
  have 2: "length (read_files content) =
     count_list (universal_newlines content) 0x0A +
     (if universal_newlines content = [] \<or> last (universal_newlines content) = 0x0A
      then 0 else 1)"
    by (simp add: read_files_map length_file_lines)
  have 3: "read_files content ! k = strip (?ls ! k) \<and>
      (\<exists>pre suf. ?ls ! k = pre @ read_files content ! k @ suf \<and>
         (\<forall>c \<in> set pre. is_space c) \<and> (\<forall>c \<in> set suf. is_space c)) \<and>
      ((\<forall>c \<in> set (?ls ! k). is_space c) \<longrightarrow> read_files content ! k = [])"
    if "k < length ?ls" for k
    using that strip_decomp [of "?ls ! k"]
    by (simp add: read_files_map strip_blank)
  have 4: "\<forall>url \<in> set (read_files content).
      url = [] \<or> (\<not> is_space (hd url) \<and> \<not> is_space (last url))"
    using strip_ends by (auto simp: read_files_map)
  from universal_newlines_no_CR 1 2 3 4 show ?thesis by blast
qed

theorem read_files_one_entry_per_line_witness:
  "read_files [0xA0, 97, 13, 98, 13, 10, 10, 99] = [[97], [98], [], [99]] \<and>
   universal_newlines [0xA0, 97, 13, 98, 13, 10, 10, 99] = [0xA0, 97, 10, 98, 10, 10, 99] \<and>
   length (read_files [0xA0, 97, 13, 98, 13, 10, 10, 99]) = 4 \<and>
   count_list (universal_newlines [0xA0, 97, 13, 98, 13, 10, 10, 99]) 10 = 3"
  using read_files_one_entry_per_line [of "[0xA0, 97, 13, 98, 13, 10, 10, 99]"]
  by (simp add: read_files_def strip_def is_space_def)


end
